theory Spec2Isabelle
  imports Main "HOL-Library.Char_ord" "HOL-Library.List_Lexorder"
begin

section \<open>Python strings\<close>

text \<open>
  A Python \<open>str\<close> is modelled as a \<open>string\<close> whose characters are the code points
  below 256. On that range \<open>str.isspace\<close>, \<open>str.lower\<close> and the comparison used by
  \<open>sorted\<close> are the ones written out below; the order on \<open>string\<close> is the
  lexicographic order by code point (a proper prefix is smaller), as for \<open>str\<close>.
\<close>

definition is_space :: "char \<Rightarrow> bool" where
  "is_space c = (let n = (of_char c :: nat) in
     (9 \<le> n \<and> n \<le> 13) \<or> (28 \<le> n \<and> n \<le> 32) \<or> n = 133 \<or> n = 160)"

definition lower_char :: "char \<Rightarrow> char" where
  "lower_char c = (let n = (of_char c :: nat) in
     if (65 \<le> n \<and> n \<le> 90) \<or> (192 \<le> n \<and> n \<le> 222 \<and> n \<noteq> 215)
     then char_of (n + 32) else c)"

text \<open>\<open>s.lower()\<close>\<close>

definition lower :: "string \<Rightarrow> string" where
  "lower s = map lower_char s"

text \<open>\<open>s.strip()\<close>\<close>

definition strip :: "string \<Rightarrow> string" where
  "strip s = rev (dropWhile is_space (rev (dropWhile is_space s)))"

text \<open>\<open>s.rstrip('.')\<close>: every trailing dot is removed.\<close>

definition rstrip_dot :: "string \<Rightarrow> string" where
  "rstrip_dot s = rev (dropWhile (\<lambda>c. c = CHR ''.'') (rev s))"

text \<open>\<open>s.endswith(t)\<close> and \<open>s.startswith(t)\<close>\<close>

definition endswith :: "string \<Rightarrow> string \<Rightarrow> bool" where
  "endswith s t = (length t \<le> length s \<and> drop (length s - length t) s = t)"

definition startswith :: "string \<Rightarrow> string \<Rightarrow> bool" where
  "startswith s t = (take (length t) s = t)"

text \<open>\<open>s.split('\n')\<close>: the pieces between line feeds; the empty string gives one empty piece.\<close>

fun split_nl :: "string \<Rightarrow> string list" where
  "split_nl [] = [[]]"
| "split_nl (c # cs) =
     (if c = CHR 0x0A then [] # split_nl cs
      else (case split_nl cs of p # ps \<Rightarrow> (c # p) # ps | [] \<Rightarrow> [[c]]))"

section \<open>Exceptions and the outside world\<close>

text \<open>
  The exceptions that the library calls of the program can raise. \<open>KeyboardInterrupt\<close>
  and \<open>SystemExit\<close> are not subclasses of \<open>Exception\<close>: a handler
  \<open>except Exception\<close> lets them pass, a bare \<open>except:\<close> catches them.
\<close>

datatype py_exn =
    NXDOMAIN | NoAnswer | LifetimeTimeout | NoNameservers
  | ConnectionRefusedError | TransferError | FormError
  | RequestException | JSONDecodeError | AttributeError
  | FileNotFoundError | PermissionError | IsADirectoryError
  | ValueError | KeyboardInterrupt | SystemExit

definition is_Exception :: "py_exn \<Rightarrow> bool" where
  "is_Exception e = (e \<noteq> KeyboardInterrupt \<and> e \<noteq> SystemExit)"

text \<open>
  One record of a crt.sh answer after \<open>response.json()\<close>: a dictionary with a string
  under \<open>name_value\<close>, a dictionary without that key, or a value on which
  \<open>entry.get\<close> or \<open>name.split\<close> raises \<open>AttributeError\<close>.
\<close>

datatype ct_entry = NameValue string | NoNameValue | Malformed

record response =
  status_code :: nat
  resp_text :: string
  json :: "py_exn + ct_entry list"

text \<open>
  The network and the file system, as the program sees them: each library call either
  raises or returns. \<open>resolver_resolve qname rdtype\<close> is \<open>self.resolver.resolve\<close>
  (the texts of the records of the answer; dnspython raises \<open>NoAnswer\<close> rather than
  return an empty answer), \<open>requests_get url timeout\<close> is \<open>requests.get\<close>,
  \<open>from_xfr ns domain timeout\<close> is \<open>dns.zone.from_xfr (dns.query.xfr \<dots>)\<close> followed by
  the texts of \<open>zone.nodes.keys()\<close>, and \<open>open_lines path\<close> is the list of lines
  (each with its line end) of the file opened with \<open>errors='ignore'\<close>.
\<close>

record env =
  resolver_resolve :: "string \<Rightarrow> string \<Rightarrow> py_exn + string list"
  requests_get :: "string \<Rightarrow> int \<Rightarrow> py_exn + response"
  from_xfr :: "string \<Rightarrow> string \<Rightarrow> int \<Rightarrow> py_exn + string list"
  open_lines :: "string \<Rightarrow> py_exn + string list"

section \<open>SubdomainHunter\<close>

record hunter =
  domain :: string
  threads :: int
  timeout :: int
  verbose :: bool
  subdomains :: "string set"

text \<open>\<open>SubdomainHunter.__init__\<close>\<close>

definition init :: "string \<Rightarrow> int \<Rightarrow> int \<Rightarrow> bool \<Rightarrow> hunter" where
  "init d t tmo v =
     \<lparr>domain = d, threads = t, timeout = tmo, verbose = v, subdomains = {}\<rparr>"

text \<open>
  \<open>resolve_dns\<close>: the lookup is inside \<open>try\<close>, and the handler is a bare \<open>except:\<close>.
\<close>

definition resolve_dns :: "env \<Rightarrow> hunter \<Rightarrow> string \<Rightarrow> py_exn + bool" where
  "resolve_dns w h hostname =
     (case resolver_resolve w hostname ''A'' of
        Inr answer \<Rightarrow> Inr True
      | Inl e \<Rightarrow> Inr False)"

text \<open>
  \<open>search_ct_logs\<close>. The state of the two loops is the pair of the local set \<open>found\<close>
  and \<open>self.subdomains\<close>. The inner loop runs over the pieces of one \<open>name_value\<close>.
\<close>

fun ct_names :: "string \<Rightarrow> string list \<Rightarrow> string set \<times> string set \<Rightarrow> string set \<times> string set" where
  "ct_names d [] st = st"
| "ct_names d (p # ps) (found, subs) =
     (let subdomain = lower (strip p) in
      if endswith subdomain d \<and> CHR ''*'' \<notin> set subdomain then
        if subdomain \<notin> subs
        then ct_names d ps (insert subdomain found, insert subdomain subs)
        else ct_names d ps (found, subs)
      else ct_names d ps (found, subs))"

text \<open>
  The outer loop runs over the records. \<open>entry.get('name_value', '')\<close> gives the empty
  string where the key is missing. On a malformed record the \<open>AttributeError\<close> leaves
  the loop and is caught by \<open>except Exception\<close>: what was added before stays.
\<close>

fun ct_entries :: "string \<Rightarrow> ct_entry list \<Rightarrow> string set \<times> string set \<Rightarrow> string set \<times> string set" where
  "ct_entries d [] st = st"
| "ct_entries d (NameValue v # es) st = ct_entries d es (ct_names d (split_nl v) st)"
| "ct_entries d (NoNameValue # es) st = ct_entries d es (ct_names d (split_nl []) st)"
| "ct_entries d (Malformed # es) st = st"

definition ct_url :: "string \<Rightarrow> string" where
  "ct_url d = ''https://crt.sh/?q=%.'' @ d @ ''&output=json''"

definition search_ct_logs :: "env \<Rightarrow> hunter \<Rightarrow> py_exn + hunter \<times> string set" where
  "search_ct_logs w h =
     (case requests_get w (ct_url (domain h)) (timeout h * 2) of
        Inl e \<Rightarrow> if is_Exception e then Inr (h, {}) else Inl e
      | Inr resp \<Rightarrow>
          if status_code resp = 200 then
            (case json resp of
               Inl e \<Rightarrow> if is_Exception e then Inr (h, {}) else Inl e
             | Inr data \<Rightarrow>
                 (case ct_entries (domain h) data ({}, subdomains h) of
                    (found, subs) \<Rightarrow> Inr (h\<lparr>subdomains := subs\<rparr>, found)))
          else Inr (h, {}))"

text \<open>
  \<open>zone_transfer\<close>. Both handlers are bare \<open>except:\<close>. The nodes of a zone are added
  only once \<open>from_xfr\<close> has returned the whole zone.
\<close>

fun zone_nodes :: "string \<Rightarrow> string list \<Rightarrow> string set \<times> string set \<Rightarrow> string set \<times> string set" where
  "zone_nodes d [] st = st"
| "zone_nodes d (name # names) (found, subs) =
     (let subdomain = lower (name @ ''.'' @ d) in
      zone_nodes d names (insert subdomain found, insert subdomain subs))"

fun zone_servers :: "env \<Rightarrow> hunter \<Rightarrow> string list \<Rightarrow> string set \<times> string set \<Rightarrow> string set \<times> string set" where
  "zone_servers w h [] st = st"
| "zone_servers w h (ns # nss) st =
     (let ns_server = rstrip_dot ns in
      case from_xfr w ns_server (domain h) (timeout h) of
        Inr names \<Rightarrow> zone_servers w h nss (zone_nodes (domain h) names st)
      | Inl e \<Rightarrow> zone_servers w h nss st)"

definition zone_transfer :: "env \<Rightarrow> hunter \<Rightarrow> py_exn + hunter \<times> string set" where
  "zone_transfer w h =
     (case resolver_resolve w (domain h) ''NS'' of
        Inl e \<Rightarrow> Inr (h, {})
      | Inr ns_records \<Rightarrow>
          (case zone_servers w h ns_records ({}, subdomains h) of
             (found, subs) \<Rightarrow> Inr (h\<lparr>subdomains := subs\<rparr>, found)))"

text \<open>
  \<open>dns_bruteforce\<close>. The words are the stripped lines that are not blank and do not
  start with \<open>#\<close>. Only \<open>FileNotFoundError\<close> is handled where the file is opened and
  read. \<open>ThreadPoolExecutor(max_workers=self.threads)\<close> raises \<open>ValueError\<close> when the
  number of threads is not positive, and nothing handles it. The results of the futures are collected by the calling thread; \<open>found\<close> and
  \<open>self.subdomains\<close> are sets, so the order in which the futures complete (here: the
  order of the words) does not show in them.
\<close>

definition load_words :: "string list \<Rightarrow> string list" where
  "load_words lines =
     map strip (filter (\<lambda>line. strip line \<noteq> [] \<and> \<not> startswith line ''#'') lines)"

definition check_subdomain :: "env \<Rightarrow> hunter \<Rightarrow> string \<Rightarrow> py_exn + string option" where
  "check_subdomain w h word =
     (let subdomain = word @ ''.'' @ domain h in
      case resolve_dns w h subdomain of
        Inl e \<Rightarrow> Inl e
      | Inr b \<Rightarrow> if b then Inr (Some subdomain) else Inr None)"

fun brute_results :: "env \<Rightarrow> hunter \<Rightarrow> string list \<Rightarrow> string set \<times> string set \<Rightarrow> py_exn + string set \<times> string set" where
  "brute_results w h [] st = Inr st"
| "brute_results w h (word # ws) (found, subs) =
     (case check_subdomain w h word of
        Inl e \<Rightarrow> Inl e
      | Inr None \<Rightarrow> brute_results w h ws (found, subs)
      | Inr (Some result) \<Rightarrow>
          if result \<noteq> [] then brute_results w h ws (insert result found, insert result subs)
          else brute_results w h ws (found, subs))"

definition dns_bruteforce :: "env \<Rightarrow> hunter \<Rightarrow> string \<Rightarrow> py_exn + hunter \<times> string set" where
  "dns_bruteforce w h wordlist_path =
     (case open_lines w wordlist_path of
        Inl e \<Rightarrow> if e = FileNotFoundError then Inr (h, {}) else Inl e
      | Inr lines \<Rightarrow>
          if threads h \<le> 0 then Inl ValueError
          else
            (case brute_results w h (load_words lines) ({}, subdomains h) of
               Inl e \<Rightarrow> Inl e
             | Inr (found, subs) \<Rightarrow> Inr (h\<lparr>subdomains := subs\<rparr>, found)))"

section \<open>The pattern of web_search\<close>

text \<open>
  \<open>re.findall\<close> with the pattern \<open>([a-zA-Z0-9][-a-zA-Z0-9]*\.)+\<close> followed by
  \<open>re.escape(self.domain)\<close>. The pattern has one group, so \<open>findall\<close> returns, for each
  match, the text of that group: what its last repetition matched. One repetition of
  the group is a character of \<open>[a-zA-Z0-9]\<close>, the longest run of \<open>[-a-zA-Z0-9]\<close> and
  a dot (a shorter run is followed by a character of the run, never by the dot).
\<close>

definition is_alnum :: "char \<Rightarrow> bool" where
  "is_alnum c = (c \<in> set ''abcdefghijklmnopqrstuvwxyzABCDEFGHIJKLMNOPQRSTUVWXYZ0123456789'')"

definition is_label_char :: "char \<Rightarrow> bool" where
  "is_label_char c = (c = CHR ''-'' \<or> is_alnum c)"

fun match_group :: "string \<Rightarrow> (string \<times> string) option" where
  "match_group [] = None"
| "match_group (c # cs) =
     (if is_alnum c then
        (case dropWhile is_label_char cs of
           [] \<Rightarrow> None
         | x # rest \<Rightarrow>
             if x = CHR ''.'' then Some (c # takeWhile is_label_char cs @ ''.'', rest)
             else None)
      else None)"

lemma match_group_shorter: "match_group s = Some (g, rest) \<Longrightarrow> length rest < length s"
proof (cases s)
  case Nil
  assume "match_group s = Some (g, rest)"
  with Nil show ?thesis by simp
next
  case (Cons c cs)
  assume m: "match_group s = Some (g, rest)"
  from m Cons obtain x where "dropWhile is_label_char cs = x # rest"
    by (auto split: if_splits list.splits)
  then have "length (x # rest) \<le> length cs"
    by (metis length_dropWhile_le)
  with Cons show ?thesis by simp
qed

text \<open>The escaped domain, matched literally where the repetitions stop.\<close>

definition match_tail :: "string \<Rightarrow> string \<Rightarrow> string \<Rightarrow> (string \<times> string) option" where
  "match_tail d g s = (if startswith s d then Some (g, drop (length d) s) else None)"

text \<open>
  The repetition is greedy: after a repetition that matched \<open>g\<close>, one more repetition
  and the rest of the pattern are tried first; when that fails the group is \<open>g\<close> again
  and the domain is tried at the current position.
\<close>

function match_groups :: "string \<Rightarrow> string \<Rightarrow> string \<Rightarrow> (string \<times> string) option" where
  "match_groups d g s =
     (case match_group s of
        None \<Rightarrow> match_tail d g s
      | Some (g', s') \<Rightarrow>
          (case match_groups d g' s' of
             Some r \<Rightarrow> Some r
           | None \<Rightarrow> match_tail d g s))"
  by pat_completeness auto
termination
  by (relation "measure (\<lambda>(d, g, s). length s)") (auto simp: match_group_shorter)

definition match_at :: "string \<Rightarrow> string \<Rightarrow> (string \<times> string) option" where
  "match_at d s =
     (case match_group s of
        None \<Rightarrow> None
      | Some (g, s') \<Rightarrow> match_groups d g s')"

lemma match_tail_le: "match_tail d g s = Some (g', rest) \<Longrightarrow> length rest \<le> length s"
  by (auto simp: match_tail_def split: if_splits)

lemma match_groups_le: "match_groups d g s = Some (g', rest) \<Longrightarrow> length rest \<le> length s"
proof (induction d g s arbitrary: g' rest rule: match_groups.induct)
  case (1 d g s)
  show ?case
  proof (cases "match_group s")
    case None
    with "1.prems" show ?thesis
      by (simp add: match_tail_le)
  next
    case (Some a)
    obtain g1 s1 where a: "a = (g1, s1)" by (cases a)
    have s1: "length s1 < length s"
      using Some a by (simp add: match_group_shorter)
    show ?thesis
    proof (cases "match_groups d g1 s1")
      case None
      with "1.prems" Some a show ?thesis
        by (simp add: match_tail_le)
    next
      case (Some r)
      with "1.prems" \<open>match_group s = Some a\<close> a have "match_groups d g1 s1 = Some (g', rest)"
        by simp
      with "1.IH" \<open>match_group s = Some a\<close> a have "length rest \<le> length s1"
        by simp
      with s1 show ?thesis by simp
    qed
  qed
qed

lemma match_at_shorter: "match_at d s = Some (g, rest) \<Longrightarrow> length rest < length s"
  unfolding match_at_def
  by (auto split: option.splits dest!: match_group_shorter match_groups_le)

text \<open>
  The scan: a match at the current position gives its group and the scan goes on
  behind the match; otherwise it goes on one character further.
\<close>

function findall :: "string \<Rightarrow> string \<Rightarrow> string list" where
  "findall d s =
     (case match_at d s of
        Some (g, rest) \<Rightarrow> g # findall d rest
      | None \<Rightarrow> (case s of [] \<Rightarrow> [] | c # cs \<Rightarrow> findall d cs))"
  by pat_completeness auto
termination
  by (relation "measure (\<lambda>(d, s). length s)") (auto simp: match_at_shorter)

section \<open>web_search and run_all\<close>

fun web_matches :: "string \<Rightarrow> string list \<Rightarrow> string set \<times> string set \<Rightarrow> string set \<times> string set" where
  "web_matches d [] st = st"
| "web_matches d (m # ms) (found, subs) =
     (let subdomain = rstrip_dot (lower m) in
      if endswith subdomain d \<and> subdomain \<notin> subs
      then web_matches d ms (insert subdomain found, insert subdomain subs)
      else web_matches d ms (found, subs))"

definition sources :: "string \<Rightarrow> (string \<times> string) list" where
  "sources d =
     [(''HackerTarget'', ''https://api.hackertarget.com/hostsearch/?q='' @ d),
      (''BufferOver'', ''https://dns.bufferover.run/dns?q=.'' @ d)]"

text \<open>
  The loop over the sources; the handler inside the loop is \<open>except Exception\<close>, so
  a source that fails is skipped.
\<close>

fun web_sources :: "env \<Rightarrow> hunter \<Rightarrow> (string \<times> string) list \<Rightarrow> string set \<times> string set \<Rightarrow> py_exn + string set \<times> string set" where
  "web_sources w h [] st = Inr st"
| "web_sources w h ((source_name, url) # rest) st =
     (case requests_get w url (timeout h * 2) of
        Inl e \<Rightarrow> if is_Exception e then web_sources w h rest st else Inl e
      | Inr resp \<Rightarrow>
          if status_code resp = 200
          then web_sources w h rest
                 (web_matches (domain h) (findall (domain h) (resp_text resp)) st)
          else web_sources w h rest st)"

definition web_search :: "env \<Rightarrow> hunter \<Rightarrow> py_exn + hunter \<times> string set" where
  "web_search w h =
     (case web_sources w h (sources (domain h)) ({}, subdomains h) of
        Inl e \<Rightarrow> Inl e
      | Inr (found, subs) \<Rightarrow> Inr (h\<lparr>subdomains := subs\<rparr>, found))"

text \<open>
  The dictionary returned by \<open>run_all\<close>: the domain, the sorted names and the
  statistics (a \<open>defaultdict(int)\<close>, here a map: a key that was never written is absent). The
  float \<open>scan_time\<close> and the lines that are logged are left out.
\<close>

record results =
  r_domain :: string
  r_subdomains :: "string list"
  statistics :: "string \<rightharpoonup> nat"

text \<open>An exception of a step ends the steps that follow it.\<close>

definition seq_exn :: "py_exn + 'a \<Rightarrow> ('a \<Rightarrow> py_exn + 'b) \<Rightarrow> py_exn + 'b" where
  "seq_exn m f = (case m of Inl e \<Rightarrow> Inl e | Inr x \<Rightarrow> f x)"

text \<open>
  \<open>run_all\<close>: the four phases in their order, each under its flag; the brute force
  also needs a wordlist path that is neither \<open>None\<close> nor empty. There is no handler
  in \<open>run_all\<close>.
\<close>

definition run_all ::
  "env \<Rightarrow> hunter \<Rightarrow> string option \<Rightarrow> bool \<Rightarrow> bool \<Rightarrow> bool \<Rightarrow> bool \<Rightarrow> py_exn + hunter \<times> results" where
  "run_all w h wordlist_path enable_ct enable_brute enable_web enable_zone =
     seq_exn (if enable_ct
              then seq_exn (search_ct_logs w h)
                     (\<lambda>(h1, ct_subs). Inr (h1, [''ct_logs'' \<mapsto> card ct_subs]))
              else Inr (h, Map.empty))
       (\<lambda>(h1, s1).
     seq_exn (if enable_web
              then seq_exn (web_search w h1)
                     (\<lambda>(h2, web_subs). Inr (h2, s1(''web_search'' \<mapsto> card web_subs)))
              else Inr (h1, s1))
       (\<lambda>(h2, s2).
     seq_exn (if enable_zone
              then seq_exn (zone_transfer w h2)
                     (\<lambda>(h3, zt_subs). Inr (h3, s2(''zone_transfer'' \<mapsto> card zt_subs)))
              else Inr (h2, s2))
       (\<lambda>(h3, s3).
     seq_exn (case wordlist_path of
                None \<Rightarrow> Inr (h3, s3)
              | Some path \<Rightarrow>
                  if enable_brute \<and> path \<noteq> []
                  then seq_exn (dns_bruteforce w h3 path)
                         (\<lambda>(h4, brute_subs). Inr (h4, s3(''brute_force'' \<mapsto> card brute_subs)))
                  else Inr (h3, s3))
       (\<lambda>(h4, s4).
     let all_subs = sorted_list_of_set (subdomains h4) in
     Inr (h4, \<lparr>r_domain = domain h4, r_subdomains = all_subs,
               statistics = s4(''total_unique'' \<mapsto> length all_subs)\<rparr>)))))"

section \<open>What the loops add\<close>

text \<open>
  Each loop adds one set of names to \<open>found\<close> and to \<open>self.subdomains\<close>. The sets
  are written out here: the candidates of the certificate records, of a transferred
  zone and of the wordlist.
\<close>

definition ct_cands :: "string \<Rightarrow> string list \<Rightarrow> string set" where
  "ct_cands d ps =
     set (filter (\<lambda>n. endswith n d \<and> CHR ''*'' \<notin> set n) (map (\<lambda>p. lower (strip p)) ps))"

lemma ct_cands_Nil: "ct_cands d [] = {}"
  by (simp add: ct_cands_def)

lemma ct_cands_Cons:
  "ct_cands d (p # ps) =
     (if endswith (lower (strip p)) d \<and> CHR ''*'' \<notin> set (lower (strip p))
      then insert (lower (strip p)) (ct_cands d ps) else ct_cands d ps)"
  by (simp add: ct_cands_def)

lemma ct_names_eq:
  "ct_names d ps (found, subs) = (found \<union> (ct_cands d ps - subs), subs \<union> ct_cands d ps)"
proof (induction ps arbitrary: found subs)
  case Nil
  show ?case by (simp add: ct_cands_Nil)
next
  case (Cons p ps)
  let ?n = "lower (strip p)"
  show ?case
  proof (cases "endswith ?n d \<and> CHR ''*'' \<notin> set ?n")
    case False
    then have "ct_names d (p # ps) (found, subs) = ct_names d ps (found, subs)"
      by (cases "endswith ?n d") (simp_all add: Let_def)
    moreover from False have "ct_cands d (p # ps) = ct_cands d ps"
      by (cases "endswith ?n d") (simp_all add: ct_cands_Cons)
    ultimately show ?thesis using Cons.IH by simp
  next
    case ok: True
    then have c: "ct_cands d (p # ps) = insert ?n (ct_cands d ps)"
      by (simp add: ct_cands_Cons)
    show ?thesis
    proof (cases "?n \<in> subs")
      case True
      with ok have "ct_names d (p # ps) (found, subs) = ct_names d ps (found, subs)"
        by (simp add: Let_def)
      also have "\<dots> = (found \<union> (ct_cands d ps - subs), subs \<union> ct_cands d ps)"
        by (rule Cons.IH)
      also have "found \<union> (ct_cands d ps - subs) = found \<union> (ct_cands d (p # ps) - subs)"
        using True by (auto simp: c)
      also have "subs \<union> ct_cands d ps = subs \<union> ct_cands d (p # ps)"
        using True by (auto simp: c)
      finally show ?thesis .
    next
      case False
      with ok have "ct_names d (p # ps) (found, subs) =
          ct_names d ps (insert ?n found, insert ?n subs)"
        by (simp add: Let_def)
      also have "\<dots> = (insert ?n found \<union> (ct_cands d ps - insert ?n subs),
                        insert ?n subs \<union> ct_cands d ps)"
        by (rule Cons.IH)
      also have "insert ?n found \<union> (ct_cands d ps - insert ?n subs) =
                 found \<union> (ct_cands d (p # ps) - subs)"
        using False by (auto simp: c)
      also have "insert ?n subs \<union> ct_cands d ps = subs \<union> ct_cands d (p # ps)"
        by (auto simp: c)
      finally show ?thesis .
    qed
  qed
qed


fun ct_pieces :: "ct_entry list \<Rightarrow> string list" where
  "ct_pieces [] = []"
| "ct_pieces (NameValue v # es) = split_nl v @ ct_pieces es"
| "ct_pieces (NoNameValue # es) = split_nl [] @ ct_pieces es"
| "ct_pieces (Malformed # es) = []"

lemma ct_names_append: "ct_names d (ps @ qs) st = ct_names d qs (ct_names d ps st)"
proof (induction ps arbitrary: st)
  case Nil
  show ?case by simp
next
  case (Cons p ps)
  obtain found subs where st: "st = (found, subs)" by (cases st)
  show ?case
    unfolding st by (simp add: Let_def Cons.IH)
qed

lemma ct_entries_pieces: "ct_entries d es st = ct_names d (ct_pieces es) st"
  by (induction d es st rule: ct_entries.induct) (simp_all add: ct_names_append del: split_nl.simps)

lemma ct_entries_eq:
  "ct_entries d es (found, subs) =
     (found \<union> (ct_cands d (ct_pieces es) - subs), subs \<union> ct_cands d (ct_pieces es))"
  by (simp add: ct_entries_pieces ct_names_eq)

lemma finite_ct_cands: "finite (ct_cands d ps)"
  by (simp add: ct_cands_def)

definition zone_cands :: "string \<Rightarrow> string list \<Rightarrow> string set" where
  "zone_cands d names = set (map (\<lambda>name. lower (name @ ''.'' @ d)) names)"

lemma zone_nodes_eq:
  "zone_nodes d names (found, subs) = (found \<union> zone_cands d names, subs \<union> zone_cands d names)"
  by (induction names arbitrary: found subs) (simp_all add: zone_cands_def Let_def)

fun zone_names :: "env \<Rightarrow> hunter \<Rightarrow> string list \<Rightarrow> string list" where
  "zone_names w h [] = []"
| "zone_names w h (ns # nss) =
     (case from_xfr w (rstrip_dot ns) (domain h) (timeout h) of
        Inr names \<Rightarrow> names @ zone_names w h nss
      | Inl e \<Rightarrow> zone_names w h nss)"

lemma zone_cands_append: "zone_cands d (xs @ ys) = zone_cands d xs \<union> zone_cands d ys"
  by (simp add: zone_cands_def)

lemma zone_servers_eq:
  "zone_servers w h nss (found, subs) =
     (found \<union> zone_cands (domain h) (zone_names w h nss),
      subs \<union> zone_cands (domain h) (zone_names w h nss))"
proof (induction nss arbitrary: found subs)
  case Nil
  show ?case by (simp add: zone_cands_def)
next
  case (Cons ns nss)
  show ?case
  proof (cases "from_xfr w (rstrip_dot ns) (domain h) (timeout h)")
    case (Inl e)
    then show ?thesis by (simp add: Cons.IH)
  next
    case (Inr names)
    then show ?thesis
      by (simp add: Cons.IH zone_nodes_eq zone_cands_append Un_assoc)
  qed
qed

definition brute_cands :: "env \<Rightarrow> hunter \<Rightarrow> string list \<Rightarrow> string set" where
  "brute_cands w h ws =
     set (filter (\<lambda>s. resolve_dns w h s = Inr True) (map (\<lambda>word. word @ ''.'' @ domain h) ws))"

lemma resolve_dns_cases:
  "resolve_dns w h s = Inr True \<or> resolve_dns w h s = Inr False"
  by (cases "resolver_resolve w s ''A''") (simp_all add: resolve_dns_def)

lemma brute_results_eq:
  "brute_results w h ws (found, subs) =
     Inr (found \<union> brute_cands w h ws, subs \<union> brute_cands w h ws)"
proof (induction ws arbitrary: found subs)
  case Nil
  show ?case by (simp add: brute_cands_def)
next
  case (Cons word ws)
  let ?s = "word @ ''.'' @ domain h"
  from resolve_dns_cases [of w h ?s] show ?case
  proof
    assume r: "resolve_dns w h ?s = Inr True"
    then have "brute_cands w h (word # ws) = insert ?s (brute_cands w h ws)"
      by (simp add: brute_cands_def)
    with r show ?thesis
      by (simp add: check_subdomain_def Cons.IH)
  next
    assume r: "resolve_dns w h ?s = Inr False"
    then have "brute_cands w h (word # ws) = brute_cands w h ws"
      by (simp add: brute_cands_def)
    with r show ?thesis
      by (simp add: check_subdomain_def Cons.IH)
  qed
qed

definition web_cands :: "string \<Rightarrow> string list \<Rightarrow> string set" where
  "web_cands d ms = set (filter (\<lambda>n. endswith n d) (map (\<lambda>m. rstrip_dot (lower m)) ms))"

lemma web_matches_eq:
  "web_matches d ms (found, subs) = (found \<union> (web_cands d ms - subs), subs \<union> web_cands d ms)"
proof (induction ms arbitrary: found subs)
  case Nil
  show ?case by (simp add: web_cands_def)
next
  case (Cons m ms)
  let ?n = "rstrip_dot (lower m)"
  show ?case
  proof (cases "endswith ?n d")
    case False
    then have c: "web_cands d (m # ms) = web_cands d ms"
      by (simp add: web_cands_def)
    from False show ?thesis
      by (simp add: Let_def Cons.IH c)
  next
    case ok: True
    then have c: "web_cands d (m # ms) = insert ?n (web_cands d ms)"
      by (simp add: web_cands_def)
    show ?thesis
    proof (cases "?n \<in> subs")
      case True
      with ok have "web_matches d (m # ms) (found, subs) = web_matches d ms (found, subs)"
        by (simp add: Let_def)
      also have "\<dots> = (found \<union> (web_cands d ms - subs), subs \<union> web_cands d ms)"
        by (rule Cons.IH)
      also have "found \<union> (web_cands d ms - subs) = found \<union> (web_cands d (m # ms) - subs)"
        using True by (auto simp: c)
      also have "subs \<union> web_cands d ms = subs \<union> web_cands d (m # ms)"
        using True by (auto simp: c)
      finally show ?thesis .
    next
      case False
      with ok have "web_matches d (m # ms) (found, subs) =
          web_matches d ms (insert ?n found, insert ?n subs)"
        by (simp add: Let_def)
      also have "\<dots> = (insert ?n found \<union> (web_cands d ms - insert ?n subs),
                        insert ?n subs \<union> web_cands d ms)"
        by (rule Cons.IH)
      also have "insert ?n found \<union> (web_cands d ms - insert ?n subs) =
                 found \<union> (web_cands d (m # ms) - subs)"
        using False by (auto simp: c)
      also have "insert ?n subs \<union> web_cands d ms = subs \<union> web_cands d (m # ms)"
        by (auto simp: c)
      finally show ?thesis .
    qed
  qed
qed

lemma web_cands_append: "web_cands d (xs @ ys) = web_cands d xs \<union> web_cands d ys"
  by (simp add: web_cands_def)

text \<open>The matches of the sources that answered with status 200, in the order of the sources.\<close>

fun web_found :: "env \<Rightarrow> hunter \<Rightarrow> (string \<times> string) list \<Rightarrow> string list" where
  "web_found w h [] = []"
| "web_found w h ((source_name, url) # rest) =
     (case requests_get w url (timeout h * 2) of
        Inl e \<Rightarrow> web_found w h rest
      | Inr resp \<Rightarrow>
          if status_code resp = 200
          then findall (domain h) (resp_text resp) @ web_found w h rest
          else web_found w h rest)"

lemma web_sources_eq:
  "web_sources w h srcs (found, subs) = Inr st \<Longrightarrow>
     st = (found \<union> (web_cands (domain h) (web_found w h srcs) - subs),
           subs \<union> web_cands (domain h) (web_found w h srcs))"
proof (induction srcs arbitrary: found subs)
  case Nil
  then show ?case by (simp add: web_cands_def)
next
  case (Cons src srcs)
  obtain source_name url where src: "src = (source_name, url)" by (cases src)
  show ?case
  proof (cases "requests_get w url (timeout h * 2)")
    case (Inl e)
    with Cons.prems src have "web_sources w h srcs (found, subs) = Inr st"
      by (simp split: if_splits)
    from Cons.IH [OF this] Inl src show ?thesis by simp
  next
    case (Inr resp)
    show ?thesis
    proof (cases "status_code resp = 200")
      case False
      with Cons.prems src Inr have "web_sources w h srcs (found, subs) = Inr st"
        by simp
      from Cons.IH [OF this] Inr False src show ?thesis by simp
    next
      case True
      let ?M = "web_cands (domain h) (findall (domain h) (resp_text resp))"
      from Cons.prems src Inr True
      have "web_sources w h srcs (found \<union> (?M - subs), subs \<union> ?M) = Inr st"
        by (simp add: web_matches_eq)
      from Cons.IH [OF this]
      have "st = (found \<union> (?M - subs) \<union>
                    (web_cands (domain h) (web_found w h srcs) - (subs \<union> ?M)),
                  subs \<union> ?M \<union> web_cands (domain h) (web_found w h srcs))" .
      moreover have "web_found w h (src # srcs) =
          findall (domain h) (resp_text resp) @ web_found w h srcs"
        using src Inr True by simp
      ultimately show ?thesis
        by (auto simp: web_cands_append)
    qed
  qed
qed

lemma seq_exn_Inr: "seq_exn m f = Inr y \<Longrightarrow> \<exists>x. m = Inr x \<and> f x = Inr y"
  by (cases m) (simp_all add: seq_exn_def)


text \<open>What a phase that returns has done to the hunter.\<close>

definition phase_ok :: "hunter \<Rightarrow> hunter \<Rightarrow> string set \<Rightarrow> bool" where
  "phase_ok h h' found \<longleftrightarrow>
     finite found \<and> h' = h\<lparr>subdomains := subdomains h \<union> found\<rparr>"

lemma phase_ok_same: "phase_ok h h {}"
  by (simp add: phase_ok_def)

lemma search_ct_logs_200:
  assumes "requests_get w (ct_url (domain h)) (timeout h * 2) = Inr resp"
    and "status_code resp = 200" and "json resp = Inr es"
  shows "search_ct_logs w h =
     Inr (h\<lparr>subdomains := subdomains h \<union> ct_cands (domain h) (ct_pieces es)\<rparr>,
          ct_cands (domain h) (ct_pieces es) - subdomains h)"
  using assms by (simp add: search_ct_logs_def ct_entries_eq)

lemma search_ct_logs_phase:
  assumes "search_ct_logs w h = Inr (h', found)"
  shows "phase_ok h h' found \<and> found \<inter> subdomains h = {}"
proof (cases "requests_get w (ct_url (domain h)) (timeout h * 2)")
  case (Inl e)
  with assms show ?thesis
    by (simp add: search_ct_logs_def phase_ok_def split: if_splits)
next
  case (Inr resp)
  show ?thesis
  proof (cases "status_code resp = 200")
    case False
    with assms Inr show ?thesis
      by (simp add: search_ct_logs_def phase_ok_def)
  next
    case True
    show ?thesis
    proof (cases "json resp")
      case (Inl e)
      with assms Inr True show ?thesis
        by (simp add: search_ct_logs_def phase_ok_def split: if_splits)
    next
      case es: (Inr es)
      let ?C = "ct_cands (domain h) (ct_pieces es)"
      from assms search_ct_logs_200 [OF Inr True es]
      have h': "h' = h\<lparr>subdomains := subdomains h \<union> ?C\<rparr>" and f: "found = ?C - subdomains h"
        by simp_all
      have "(?C - subdomains h) \<inter> subdomains h = {}"
        by auto
      with h' f show ?thesis
        by (simp add: phase_ok_def finite_ct_cands)
    qed
  qed
qed

lemma web_search_phase:
  assumes "web_search w h = Inr (h', found)"
  shows "phase_ok h h' found \<and> found \<inter> subdomains h = {}"
proof -
  let ?W = "web_cands (domain h) (web_found w h (sources (domain h)))"
  from assms obtain st where st: "web_sources w h (sources (domain h)) ({}, subdomains h) = Inr st"
    and r: "h' = h\<lparr>subdomains := snd st\<rparr>" "found = fst st"
    by (auto simp: web_search_def split: sum.splits)
  from web_sources_eq [OF st] have "st = (?W - subdomains h, subdomains h \<union> ?W)"
    by simp
  with r have h': "h' = h\<lparr>subdomains := subdomains h \<union> ?W\<rparr>" and f: "found = ?W - subdomains h"
    by simp_all
  have "(?W - subdomains h) \<inter> subdomains h = {}"
    by auto
  moreover have "finite ?W"
    by (simp add: web_cands_def)
  ultimately show ?thesis
    using h' f by (simp add: phase_ok_def)
qed

lemma zone_transfer_eq:
  "zone_transfer w h =
     (case resolver_resolve w (domain h) ''NS'' of
        Inl e \<Rightarrow> Inr (h, {})
      | Inr nss \<Rightarrow>
          Inr (h\<lparr>subdomains := subdomains h \<union> zone_cands (domain h) (zone_names w h nss)\<rparr>,
               zone_cands (domain h) (zone_names w h nss)))"
  by (simp add: zone_transfer_def zone_servers_eq split: sum.splits)

lemma zone_transfer_phase:
  assumes "zone_transfer w h = Inr (h', found)"
  shows "phase_ok h h' found"
  using assms
  by (cases "resolver_resolve w (domain h) ''NS''")
     (auto simp: zone_transfer_eq phase_ok_def zone_cands_def)

lemma dns_bruteforce_eq:
  "dns_bruteforce w h path =
     (case open_lines w path of
        Inl e \<Rightarrow> if e = FileNotFoundError then Inr (h, {}) else Inl e
      | Inr lines \<Rightarrow>
          if threads h \<le> 0 then Inl ValueError
          else Inr (h\<lparr>subdomains := subdomains h \<union> brute_cands w h (load_words lines)\<rparr>,
                    brute_cands w h (load_words lines)))"
  by (simp add: dns_bruteforce_def brute_results_eq split: sum.splits)

lemma dns_bruteforce_phase:
  assumes "dns_bruteforce w h path = Inr (h', found)"
  shows "phase_ok h h' found"
  using assms
  by (cases "open_lines w path")
     (auto simp: dns_bruteforce_eq phase_ok_def brute_cands_def split: if_splits)


text \<open>The condition \<open>enable_brute and wordlist_path\<close> of \<open>run_all\<close>.\<close>

definition runs_brute :: "bool \<Rightarrow> string option \<Rightarrow> bool" where
  "runs_brute enable_brute wordlist_path =
     (case wordlist_path of None \<Rightarrow> False | Some path \<Rightarrow> enable_brute \<and> path \<noteq> [])"

type_synonym stats = "string \<rightharpoonup> nat"

definition step_ct :: "env \<Rightarrow> bool \<Rightarrow> hunter \<Rightarrow> py_exn + hunter \<times> stats" where
  "step_ct w en h =
     (if en then seq_exn (search_ct_logs w h)
                   (\<lambda>(h1, subs). Inr (h1, [''ct_logs'' \<mapsto> card subs]))
      else Inr (h, Map.empty))"

definition step_web :: "env \<Rightarrow> bool \<Rightarrow> hunter \<times> stats \<Rightarrow> py_exn + hunter \<times> stats" where
  "step_web w en x =
     (if en then seq_exn (web_search w (fst x))
                   (\<lambda>(h2, subs). Inr (h2, (snd x)(''web_search'' \<mapsto> card subs)))
      else Inr x)"

definition step_zone :: "env \<Rightarrow> bool \<Rightarrow> hunter \<times> stats \<Rightarrow> py_exn + hunter \<times> stats" where
  "step_zone w en x =
     (if en then seq_exn (zone_transfer w (fst x))
                   (\<lambda>(h3, subs). Inr (h3, (snd x)(''zone_transfer'' \<mapsto> card subs)))
      else Inr x)"

definition step_brute :: "env \<Rightarrow> bool \<Rightarrow> string option \<Rightarrow> hunter \<times> stats \<Rightarrow> py_exn + hunter \<times> stats" where
  "step_brute w en wordlist_path x =
     (case wordlist_path of
        None \<Rightarrow> Inr x
      | Some path \<Rightarrow>
          if en \<and> path \<noteq> []
          then seq_exn (dns_bruteforce w (fst x) path)
                 (\<lambda>(h4, subs). Inr (h4, (snd x)(''brute_force'' \<mapsto> card subs)))
          else Inr x)"

definition finish :: "hunter \<times> stats \<Rightarrow> py_exn + hunter \<times> results" where
  "finish x =
     Inr (fst x, \<lparr>r_domain = domain (fst x),
                  r_subdomains = sorted_list_of_set (subdomains (fst x)),
                  statistics = (snd x)(''total_unique'' \<mapsto>
                     length (sorted_list_of_set (subdomains (fst x))))\<rparr>)"

lemma run_all_steps:
  "run_all w h wordlist_path enable_ct enable_brute enable_web enable_zone =
     seq_exn (step_ct w enable_ct h) (\<lambda>x1.
     seq_exn (step_web w enable_web x1) (\<lambda>x2.
     seq_exn (step_zone w enable_zone x2) (\<lambda>x3.
     seq_exn (step_brute w enable_brute wordlist_path x3) finish)))"
  unfolding run_all_def step_ct_def step_web_def step_zone_def step_brute_def finish_def
  by (simp add: split_def Let_def cong: if_cong option.case_cong)

lemma step_Inr:
  assumes "(if en then seq_exn (f h) (\<lambda>(h', subs). Inr (h', s(k \<mapsto> card subs)))
            else Inr (h, s)) = Inr (h1, s1)"
  shows "\<exists>found. (if en then f h = Inr (h1, found) else h1 = h \<and> found = {}) \<and>
           s1 = (if en then s(k \<mapsto> card found) else s)"
proof (cases en)
  case False
  with assms show ?thesis by simp
next
  case True
  with assms have "seq_exn (f h) (\<lambda>(h', subs). Inr (h', s(k \<mapsto> card subs))) = Inr (h1, s1)"
    by simp
  then obtain p where p: "f h = Inr p"
    and px: "(case p of (h', subs) \<Rightarrow> Inr (h', s(k \<mapsto> card subs))) = (Inr (h1, s1) :: py_exn + _)"
    by (cases "f h") (simp_all add: seq_exn_def)
  obtain h2 found where hf: "p = (h2, found)" by (cases p)
  with px have "h2 = h1" "s1 = s(k \<mapsto> card found)" by simp_all
  with p hf True show ?thesis by simp
qed


lemma step_ct_Inr:
  "step_ct w en h = Inr (h1, s1) \<Longrightarrow>
     \<exists>found. (if en then search_ct_logs w h = Inr (h1, found) else h1 = h \<and> found = {}) \<and>
        s1 = (if en then [''ct_logs'' \<mapsto> card found] else Map.empty)"
  unfolding step_ct_def by (rule step_Inr)

lemma step_web_Inr:
  "step_web w en (h, s) = Inr (h1, s1) \<Longrightarrow>
     \<exists>found. (if en then web_search w h = Inr (h1, found) else h1 = h \<and> found = {}) \<and>
        s1 = (if en then s(''web_search'' \<mapsto> card found) else s)"
  unfolding step_web_def fst_conv snd_conv by (rule step_Inr)

lemma step_zone_Inr:
  "step_zone w en (h, s) = Inr (h1, s1) \<Longrightarrow>
     \<exists>found. (if en then zone_transfer w h = Inr (h1, found) else h1 = h \<and> found = {}) \<and>
        s1 = (if en then s(''zone_transfer'' \<mapsto> card found) else s)"
  unfolding step_zone_def fst_conv snd_conv by (rule step_Inr)

lemma step_brute_Inr:
  assumes "step_brute w en wordlist_path (h, s) = Inr (h1, s1)"
  shows "\<exists>found.
      (if runs_brute en wordlist_path
       then \<exists>path. wordlist_path = Some path \<and> dns_bruteforce w h path = Inr (h1, found)
       else h1 = h \<and> found = {}) \<and>
      s1 = (if runs_brute en wordlist_path then s(''brute_force'' \<mapsto> card found) else s)"
proof (cases wordlist_path)
  case None
  with assms show ?thesis by (simp add: step_brute_def runs_brute_def)
next
  case (Some path)
  have rb: "(en \<and> path \<noteq> []) = runs_brute en wordlist_path"
    by (simp add: runs_brute_def Some)
  from assms have "(if runs_brute en wordlist_path
      then seq_exn (dns_bruteforce w h path)
             (\<lambda>(h4, subs). Inr (h4, s(''brute_force'' \<mapsto> card subs)))
      else Inr (h, s)) = Inr (h1, s1)"
    unfolding step_brute_def Some option.case fst_conv snd_conv rb .
  from step_Inr [where f = "\<lambda>h. dns_bruteforce w h path", OF this] obtain found where
    f: "if runs_brute en wordlist_path then dns_bruteforce w h path = Inr (h1, found)
        else h1 = h \<and> found = {}"
    and s1: "s1 = (if runs_brute en wordlist_path then s(''brute_force'' \<mapsto> card found) else s)"
    by blast
  show ?thesis
  proof (cases "runs_brute en wordlist_path")
    case True
    with f s1 Some show ?thesis by simp
  next
    case False
    with f s1 show ?thesis by simp
  qed
qed

definition phase_stats ::
  "bool \<Rightarrow> bool \<Rightarrow> bool \<Rightarrow> bool \<Rightarrow> string set \<Rightarrow> string set \<Rightarrow> string set \<Rightarrow> string set \<Rightarrow> nat \<Rightarrow> stats" where
  "phase_stats e_ct e_web e_zone e_brute ct web zt br n =
     (\<lambda>key. if key = ''total_unique'' then Some n
            else if key = ''brute_force'' \<and> e_brute then Some (card br)
            else if key = ''zone_transfer'' \<and> e_zone then Some (card zt)
            else if key = ''web_search'' \<and> e_web then Some (card web)
            else if key = ''ct_logs'' \<and> e_ct then Some (card ct)
            else None)"

lemma run_all_phases:
  assumes "run_all w h wordlist_path enable_ct enable_brute enable_web enable_zone = Inr (h', r)"
  shows "\<exists>h1 h2 h3 ct web zt br.
     (if enable_ct then search_ct_logs w h = Inr (h1, ct) else h1 = h \<and> ct = {}) \<and>
     (if enable_web then web_search w h1 = Inr (h2, web) else h2 = h1 \<and> web = {}) \<and>
     (if enable_zone then zone_transfer w h2 = Inr (h3, zt) else h3 = h2 \<and> zt = {}) \<and>
     (if runs_brute enable_brute wordlist_path
      then \<exists>path. wordlist_path = Some path \<and> dns_bruteforce w h3 path = Inr (h', br)
      else h' = h3 \<and> br = {}) \<and>
     r_domain r = domain h' \<and>
     r_subdomains r = sorted_list_of_set (subdomains h') \<and>
     statistics r = phase_stats enable_ct enable_web enable_zone
        (runs_brute enable_brute wordlist_path) ct web zt br
        (length (sorted_list_of_set (subdomains h')))"
proof -
  let ?rb = "runs_brute enable_brute wordlist_path"
  note a = assms [unfolded run_all_steps]
  from seq_exn_Inr [OF a] obtain x1 where x1: "step_ct w enable_ct h = Inr x1"
    and a1: "seq_exn (step_web w enable_web x1) (\<lambda>x2.
               seq_exn (step_zone w enable_zone x2) (\<lambda>x3.
               seq_exn (step_brute w enable_brute wordlist_path x3) finish)) = Inr (h', r)"
    by blast
  from seq_exn_Inr [OF a1] obtain x2 where x2: "step_web w enable_web x1 = Inr x2"
    and a2: "seq_exn (step_zone w enable_zone x2) (\<lambda>x3.
               seq_exn (step_brute w enable_brute wordlist_path x3) finish) = Inr (h', r)"
    by blast
  from seq_exn_Inr [OF a2] obtain x3 where x3: "step_zone w enable_zone x2 = Inr x3"
    and a3: "seq_exn (step_brute w enable_brute wordlist_path x3) finish = Inr (h', r)"
    by blast
  from seq_exn_Inr [OF a3] obtain x4 where x4: "step_brute w enable_brute wordlist_path x3 = Inr x4"
    and a4: "finish x4 = Inr (h', r)"
    by blast
  obtain h1 s1 where p1: "x1 = (h1, s1)" by (cases x1)
  obtain h2 s2 where p2: "x2 = (h2, s2)" by (cases x2)
  obtain h3 s3 where p3: "x3 = (h3, s3)" by (cases x3)
  obtain h4 s4 where p4: "x4 = (h4, s4)" by (cases x4)
  from step_ct_Inr [OF x1 [unfolded p1]] obtain ct where
    c1: "if enable_ct then search_ct_logs w h = Inr (h1, ct) else h1 = h \<and> ct = {}"
    and s1: "s1 = (if enable_ct then [''ct_logs'' \<mapsto> card ct] else Map.empty)"
    by blast
  from step_web_Inr [OF x2 [unfolded p1 p2]] obtain web where
    c2: "if enable_web then web_search w h1 = Inr (h2, web) else h2 = h1 \<and> web = {}"
    and s2: "s2 = (if enable_web then s1(''web_search'' \<mapsto> card web) else s1)"
    by blast
  from step_zone_Inr [OF x3 [unfolded p2 p3]] obtain zt where
    c3: "if enable_zone then zone_transfer w h2 = Inr (h3, zt) else h3 = h2 \<and> zt = {}"
    and s3: "s3 = (if enable_zone then s2(''zone_transfer'' \<mapsto> card zt) else s2)"
    by blast
  from step_brute_Inr [OF x4 [unfolded p3 p4]] obtain br where
    c4: "if ?rb then \<exists>path. wordlist_path = Some path \<and> dns_bruteforce w h3 path = Inr (h4, br)
         else h4 = h3 \<and> br = {}"
    and s4: "s4 = (if ?rb then s3(''brute_force'' \<mapsto> card br) else s3)"
    by blast
  from a4 p4 have h4: "h4 = h'"
    and r: "r = \<lparr>r_domain = domain h', r_subdomains = sorted_list_of_set (subdomains h'),
                 statistics = s4(''total_unique'' \<mapsto> length (sorted_list_of_set (subdomains h')))\<rparr>"
    by (auto simp: finish_def)
  have st: "s4(''total_unique'' \<mapsto> n) =
      phase_stats enable_ct enable_web enable_zone ?rb ct web zt br n" for n
    unfolding s4 s3 s2 s1 phase_stats_def
    by (rule ext) simp
  note c4' = c4 [unfolded h4]
  have rd: "r_domain r = domain h'"
    and rs: "r_subdomains r = sorted_list_of_set (subdomains h')"
    unfolding r by simp_all
  have rst: "statistics r = phase_stats enable_ct enable_web enable_zone ?rb ct web zt br
      (length (sorted_list_of_set (subdomains h')))"
    unfolding r by (simp only: results.simps st)
  show ?thesis
    by (intro exI conjI) (rule c1, rule c2, rule c3, rule c4', rule rd, rule rs, rule rst)
qed

section \<open>DNS resolution\<close>

text \<open>
  C5. For every hostname, \<open>resolve_dns\<close> returns normally, whatever the lookup does:
  it returns \<open>True\<close> exactly when the A lookup returned an answer, and \<open>False\<close> when the
  lookup raised anything, in particular NXDOMAIN, a timeout or SERVFAIL (no nameserver
  gave a usable answer).
\<close>

theorem resolve_dns_total:
  "(resolve_dns w h hostname = Inr True \<or> resolve_dns w h hostname = Inr False) \<and>
   (resolve_dns w h hostname = Inr True \<longleftrightarrow>
      (\<exists>answer. resolver_resolve w hostname ''A'' = Inr answer)) \<and>
   (\<forall>e. resolver_resolve w hostname ''A'' = Inl e \<longrightarrow> resolve_dns w h hostname = Inr False)"
  by (cases "resolver_resolve w hostname ''A''") (simp_all add: resolve_dns_def)

definition world0 :: env where
  "world0 = \<lparr>resolver_resolve = (\<lambda>q t. if q = ''www.example.com'' \<and> t = ''A''
                                        then Inr [''93.184.216.34''] else Inl NXDOMAIN),
            requests_get = (\<lambda>u t. Inl RequestException),
            from_xfr = (\<lambda>n d t. Inl ConnectionRefusedError),
            open_lines = (\<lambda>p. Inl FileNotFoundError)\<rparr>"

theorem resolve_dns_total_witness:
  "resolver_resolve world0 ''mail.example.com'' ''A'' = Inl NXDOMAIN \<and>
   resolve_dns world0 (init ''example.com'' 50 5 False) ''mail.example.com'' = Inr False \<and>
   resolve_dns world0 (init ''example.com'' 50 5 False) ''www.example.com'' = Inr True"
  using resolve_dns_total [of world0 "init ''example.com'' 50 5 False" "''mail.example.com''"]
    resolve_dns_total [of world0 "init ''example.com'' 50 5 False" "''www.example.com''"]
  by (simp add: world0_def)

section \<open>An example scan\<close>

text \<open>
  An example world: crt.sh knows a wildcard name and \<open>www\<close>, the web sources fail, two
  nameservers refuse the transfer, and of the three words of the wordlist \<open>www\<close> and
  \<open>mail\<close> resolve.
\<close>

definition crt_body :: "ct_entry list" where
  "crt_body = [NameValue (''*.example.com'' @ [CHR 0x0A] @ ''www.example.com'')]"

definition world1 :: env where
  "world1 =
     \<lparr>resolver_resolve = (\<lambda>q t.
        if t = ''A'' \<and> (q = ''www.example.com'' \<or> q = ''mail.example.com'')
        then Inr [''93.184.216.34'']
        else if t = ''NS'' \<and> q = ''example.com''
        then Inr [''ns1.example.com.'', ''ns2.example.com.'']
        else Inl NXDOMAIN),
      requests_get = (\<lambda>u t.
        if u = ''https://crt.sh/?q=%.example.com&output=json''
        then Inr \<lparr>status_code = 200, resp_text = [], json = Inr crt_body\<rparr>
        else Inl RequestException),
      from_xfr = (\<lambda>n d t. Inl ConnectionRefusedError),
      open_lines = (\<lambda>p.
        if p = ''words.txt''
        then Inr [''# common'' @ [CHR 0x0A], ''www'' @ [CHR 0x0A], ''mail'' @ [CHR 0x0A],
                  [CHR 0x0A], ''ftp'' @ [CHR 0x0A]]
        else if p = ''secret.txt'' then Inl PermissionError
        else Inl FileNotFoundError)\<rparr>"

definition hunter1 :: hunter where
  "hunter1 = init ''example.com'' 50 5 False"

lemma run_world1:
  "case run_all world1 hunter1 (Some ''words.txt'') True True True True of
     Inl e \<Rightarrow> False
   | Inr (h', r) \<Rightarrow>
       subdomains h' = {''mail.example.com'', ''www.example.com''} \<and>
       r_domain r = ''example.com'' \<and>
       r_subdomains r = [''mail.example.com'', ''www.example.com''] \<and>
       statistics r ''ct_logs'' = Some 1 \<and> statistics r ''web_search'' = Some 0 \<and>
       statistics r ''zone_transfer'' = Some 0 \<and> statistics r ''brute_force'' = Some 2 \<and>
       statistics r ''total_unique'' = Some 2"
  by code_simp

lemma perm_world1:
  "case run_all world1 hunter1 (Some ''secret.txt'') True True True True of
     Inl e \<Rightarrow> e = PermissionError
   | Inr x \<Rightarrow> False"
  by code_simp

lemma nofile_world1:
  "case run_all world1 hunter1 (Some ''nothing.txt'') True True True True of
     Inl e \<Rightarrow> False
   | Inr (h', r) \<Rightarrow>
       r_subdomains r = [''www.example.com''] \<and>
       statistics r ''brute_force'' = Some 0 \<and>
       statistics r ''total_unique'' = Some 1"
  by code_simp

lemma zt_world1: "zone_transfer world1 hunter1 = Inr (hunter1, {})"
  by code_simp

lemma ct_world1: "case search_ct_logs world1 hunter1 of Inl e \<Rightarrow> False | Inr (h', found) \<Rightarrow> found = {''www.example.com''} \<and> subdomains h' = {''www.example.com''}"
  by code_simp


lemma zone_names_all_fail:
  "\<forall>ns \<in> set nss. \<exists>e. from_xfr w (rstrip_dot ns) (domain h) (timeout h) = Inl e \<Longrightarrow>
     zone_names w h nss = []"
  by (induction nss) auto

text \<open>
  C9. \<open>zone_transfer\<close> always returns; it returns the hunter unchanged and the empty
  set when the NS lookup fails or when the transfer fails at every nameserver; and a
  nameserver whose transfer fails adds nothing: the loop goes on with the next one.
\<close>

theorem zone_transfer_failures:
  "(\<exists>h' found. zone_transfer w h = Inr (h', found)) \<and>
   ((\<exists>e. resolver_resolve w (domain h) ''NS'' = Inl e) \<longrightarrow> zone_transfer w h = Inr (h, {})) \<and>
   (resolver_resolve w (domain h) ''NS'' = Inr nss \<and>
    (\<forall>ns \<in> set nss. \<exists>e. from_xfr w (rstrip_dot ns) (domain h) (timeout h) = Inl e)
      \<longrightarrow> zone_transfer w h = Inr (h, {})) \<and>
   ((\<exists>e. from_xfr w (rstrip_dot ns) (domain h) (timeout h) = Inl e)
      \<longrightarrow> zone_servers w h (ns # rest) st = zone_servers w h rest st)"
proof (intro conjI impI)
  show "\<exists>h' found. zone_transfer w h = Inr (h', found)"
    by (cases "resolver_resolve w (domain h) ''NS''") (simp_all add: zone_transfer_eq)
next
  assume "\<exists>e. resolver_resolve w (domain h) ''NS'' = Inl e"
  then show "zone_transfer w h = Inr (h, {})"
    by (auto simp: zone_transfer_eq)
next
  assume a: "resolver_resolve w (domain h) ''NS'' = Inr nss \<and>
    (\<forall>ns \<in> set nss. \<exists>e. from_xfr w (rstrip_dot ns) (domain h) (timeout h) = Inl e)"
  then have "zone_names w h nss = []"
    by (simp add: zone_names_all_fail)
  with a show "zone_transfer w h = Inr (h, {})"
    by (simp add: zone_transfer_eq zone_cands_def)
next
  assume "\<exists>e. from_xfr w (rstrip_dot ns) (domain h) (timeout h) = Inl e"
  then show "zone_servers w h (ns # rest) st = zone_servers w h rest st"
    by auto
qed

theorem zone_transfer_failures_witness:
  "resolver_resolve world1 (domain hunter1) ''NS'' = Inr [''ns1.example.com.'', ''ns2.example.com.''] \<and>
   from_xfr world1 ''ns1.example.com'' ''example.com'' 5 = Inl ConnectionRefusedError \<and>
   from_xfr world1 ''ns2.example.com'' ''example.com'' 5 = Inl ConnectionRefusedError \<and>
   zone_transfer world1 hunter1 = Inr (hunter1, {})"
proof -
  have ns: "resolver_resolve world1 (domain hunter1) ''NS'' =
      Inr [''ns1.example.com.'', ''ns2.example.com.'']"
    by (simp add: world1_def hunter1_def init_def)
  have x: "\<forall>ns \<in> set [''ns1.example.com.'', ''ns2.example.com.''].
      \<exists>e. from_xfr world1 (rstrip_dot ns) (domain hunter1) (timeout hunter1) = Inl e"
    by (simp add: world1_def)
  from zone_transfer_failures [of world1 hunter1 "[''ns1.example.com.'', ''ns2.example.com.'']"] ns x
  have "zone_transfer world1 hunter1 = Inr (hunter1, {})"
    by blast
  with ns show ?thesis
    by (simp add: world1_def)
qed

text \<open>
  C7. In the result of every scan that returns, the list of subdomains is sorted in
  ascending order and has no duplicates, \<open>total_unique\<close> is its length, and that is
  the number of names in the set of the hunter (whose elements the list has).
\<close>

theorem run_all_sorted_unique:
  assumes "run_all w h wordlist_path enable_ct enable_brute enable_web enable_zone = Inr (h', r)"
  shows "sorted (r_subdomains r) \<and> distinct (r_subdomains r) \<and>
         statistics r ''total_unique'' = Some (length (r_subdomains r)) \<and>
         length (r_subdomains r) = card (subdomains h') \<and>
         (finite (subdomains h') \<longrightarrow> set (r_subdomains r) = subdomains h')"
proof -
  from run_all_phases [OF assms] obtain ct web zt br e1 e2 e3 e4 where
    rs: "r_subdomains r = sorted_list_of_set (subdomains h')"
    and st: "statistics r = phase_stats e1 e2 e3 e4 ct web zt br
               (length (sorted_list_of_set (subdomains h')))"
    by blast
  from st have "statistics r ''total_unique'' = Some (length (r_subdomains r))"
    by (simp add: phase_stats_def rs)
  then show ?thesis
    by (simp add: rs)
qed

theorem run_all_sorted_unique_witness:
  "\<exists>h' r. run_all world1 hunter1 (Some ''words.txt'') True True True True = Inr (h', r) \<and>
     r_subdomains r = [''mail.example.com'', ''www.example.com''] \<and>
     sorted (r_subdomains r) \<and> distinct (r_subdomains r) \<and>
     statistics r ''total_unique'' = Some 2 \<and> card (subdomains h') = 2"
proof -
  from run_world1 obtain h' r where
    run: "run_all world1 hunter1 (Some ''words.txt'') True True True True = Inr (h', r)"
    and rs: "r_subdomains r = [''mail.example.com'', ''www.example.com'']"
    by (auto split: sum.splits)
  from run_all_sorted_unique [OF run] rs show ?thesis
    using run by (intro exI [of _ h'] exI [of _ r]) simp
qed


lemma phase_ok_subdomains: "phase_ok h h' found \<Longrightarrow> subdomains h' = subdomains h \<union> found"
  by (simp add: phase_ok_def)

lemma phase_ok_finite: "phase_ok h h' found \<Longrightarrow> finite found"
  by (simp add: phase_ok_def)

text \<open>
  C10. The set of names is empty when the hunter is constructed; each phase that runs
  leaves the union of the set before it and of what it returns, so no name is ever
  removed; and the list of a scan that started with the empty set has exactly the names
  that the four phases returned.
\<close>

theorem nameset_grows:
  assumes "run_all w h wordlist_path enable_ct enable_brute enable_web enable_zone = Inr (h', r)"
  shows "subdomains (init d t tmo v) = {} \<and>
    (\<exists>h1 h2 h3 ct web zt br.
       (if enable_ct then search_ct_logs w h = Inr (h1, ct) else h1 = h \<and> ct = {}) \<and>
       (if enable_web then web_search w h1 = Inr (h2, web) else h2 = h1 \<and> web = {}) \<and>
       (if enable_zone then zone_transfer w h2 = Inr (h3, zt) else h3 = h2 \<and> zt = {}) \<and>
       (if runs_brute enable_brute wordlist_path
        then \<exists>path. wordlist_path = Some path \<and> dns_bruteforce w h3 path = Inr (h', br)
        else h' = h3 \<and> br = {}) \<and>
       subdomains h1 = subdomains h \<union> ct \<and>
       subdomains h2 = subdomains h1 \<union> web \<and>
       subdomains h3 = subdomains h2 \<union> zt \<and>
       subdomains h' = subdomains h3 \<union> br \<and>
       subdomains h \<subseteq> subdomains h' \<and>
       (subdomains h = {} \<longrightarrow> set (r_subdomains r) = ct \<union> web \<union> zt \<union> br))"
proof
  show "subdomains (init d t tmo v) = {}"
    by (simp add: init_def)
next
  from run_all_phases [OF assms] obtain h1 h2 h3 ct web zt br where
    c1: "if enable_ct then search_ct_logs w h = Inr (h1, ct) else h1 = h \<and> ct = {}"
    and c2: "if enable_web then web_search w h1 = Inr (h2, web) else h2 = h1 \<and> web = {}"
    and c3: "if enable_zone then zone_transfer w h2 = Inr (h3, zt) else h3 = h2 \<and> zt = {}"
    and c4: "if runs_brute enable_brute wordlist_path
        then \<exists>path. wordlist_path = Some path \<and> dns_bruteforce w h3 path = Inr (h', br)
        else h' = h3 \<and> br = {}"
    and rs: "r_subdomains r = sorted_list_of_set (subdomains h')"
    by blast
  have p1: "phase_ok h h1 ct"
    using c1 search_ct_logs_phase [of w h h1 ct] phase_ok_same [of h]
    by (cases enable_ct) simp_all
  have p2: "phase_ok h1 h2 web"
    using c2 web_search_phase [of w h1 h2 web] phase_ok_same [of h1]
    by (cases enable_web) simp_all
  have p3: "phase_ok h2 h3 zt"
    using c3 zone_transfer_phase [of w h2 h3 zt] phase_ok_same [of h2]
    by (cases enable_zone) simp_all
  have p4: "phase_ok h3 h' br"
  proof (cases "runs_brute enable_brute wordlist_path")
    case True
    with c4 obtain path where "dns_bruteforce w h3 path = Inr (h', br)" by auto
    then show ?thesis by (rule dns_bruteforce_phase)
  next
    case False
    with c4 show ?thesis by (simp add: phase_ok_same)
  qed
  note u1 = phase_ok_subdomains [OF p1] and u2 = phase_ok_subdomains [OF p2]
    and u3 = phase_ok_subdomains [OF p3] and u4 = phase_ok_subdomains [OF p4]
  have sub: "subdomains h \<subseteq> subdomains h'"
    unfolding u4 u3 u2 u1 by auto
  have fin: "subdomains h = {} \<longrightarrow> set (r_subdomains r) = ct \<union> web \<union> zt \<union> br"
  proof
    assume e: "subdomains h = {}"
    have all: "subdomains h' = ct \<union> web \<union> zt \<union> br"
      unfolding u4 u3 u2 u1 e by simp
    have "finite (ct \<union> web \<union> zt \<union> br)"
      using phase_ok_finite [OF p1] phase_ok_finite [OF p2] phase_ok_finite [OF p3]
        phase_ok_finite [OF p4] by simp
    then show "set (r_subdomains r) = ct \<union> web \<union> zt \<union> br"
      unfolding rs all by simp
  qed
  show "\<exists>h1 h2 h3 ct web zt br.
       (if enable_ct then search_ct_logs w h = Inr (h1, ct) else h1 = h \<and> ct = {}) \<and>
       (if enable_web then web_search w h1 = Inr (h2, web) else h2 = h1 \<and> web = {}) \<and>
       (if enable_zone then zone_transfer w h2 = Inr (h3, zt) else h3 = h2 \<and> zt = {}) \<and>
       (if runs_brute enable_brute wordlist_path
        then \<exists>path. wordlist_path = Some path \<and> dns_bruteforce w h3 path = Inr (h', br)
        else h' = h3 \<and> br = {}) \<and>
       subdomains h1 = subdomains h \<union> ct \<and>
       subdomains h2 = subdomains h1 \<union> web \<and>
       subdomains h3 = subdomains h2 \<union> zt \<and>
       subdomains h' = subdomains h3 \<union> br \<and>
       subdomains h \<subseteq> subdomains h' \<and>
       (subdomains h = {} \<longrightarrow> set (r_subdomains r) = ct \<union> web \<union> zt \<union> br)"
    by (intro exI conjI)
       (rule c1, rule c2, rule c3, rule c4, rule u1, rule u2, rule u3, rule u4, rule sub, rule fin)
qed

theorem nameset_grows_witness:
  "\<exists>h' r ct web zt br h1 h2 h3.
     run_all world1 hunter1 (Some ''words.txt'') True True True True = Inr (h', r) \<and>
     subdomains hunter1 = {} \<and>
     search_ct_logs world1 hunter1 = Inr (h1, ct) \<and>
     web_search world1 h1 = Inr (h2, web) \<and>
     zone_transfer world1 h2 = Inr (h3, zt) \<and>
     dns_bruteforce world1 h3 ''words.txt'' = Inr (h', br) \<and>
     set (r_subdomains r) = ct \<union> web \<union> zt \<union> br \<and>
     r_subdomains r = [''mail.example.com'', ''www.example.com'']"
proof -
  from run_world1 obtain h' r where
    run: "run_all world1 hunter1 (Some ''words.txt'') True True True True = Inr (h', r)"
    and rs: "r_subdomains r = [''mail.example.com'', ''www.example.com'']"
    by (auto split: sum.splits)
  have e: "subdomains hunter1 = {}"
    by (simp add: hunter1_def init_def)
  have rb: "runs_brute True (Some ''words.txt'')"
    by (simp add: runs_brute_def)
  from nameset_grows [OF run, THEN conjunct2] obtain h1 h2 h3 ct web zt br where
    c1: "if True then search_ct_logs world1 hunter1 = Inr (h1, ct) else h1 = hunter1 \<and> ct = {}"
    and c2: "if True then web_search world1 h1 = Inr (h2, web) else h2 = h1 \<and> web = {}"
    and c3: "if True then zone_transfer world1 h2 = Inr (h3, zt) else h3 = h2 \<and> zt = {}"
    and c4: "if runs_brute True (Some ''words.txt'')
        then \<exists>path. Some ''words.txt'' = Some path \<and> dns_bruteforce world1 h3 path = Inr (h', br)
        else h' = h3 \<and> br = {}"
    and u: "subdomains hunter1 = {} \<longrightarrow> set (r_subdomains r) = ct \<union> web \<union> zt \<union> br"
    by blast
  from c4 rb have c4': "dns_bruteforce world1 h3 ''words.txt'' = Inr (h', br)"
    by simp
  from c1 c2 c3 c4' u e rs run show ?thesis
    by (intro exI [of _ h'] exI [of _ r] exI [of _ ct] exI [of _ web] exI [of _ zt]
          exI [of _ br] exI [of _ h1] exI [of _ h2] exI [of _ h3]) simp
qed

lemma ct_cands_iff:
  "n \<in> ct_cands d ps \<longleftrightarrow>
     (\<exists>p \<in> set ps. n = lower (strip p)) \<and> endswith n d \<and> CHR ''*'' \<notin> set n"
  by (auto simp: ct_cands_def)

lemma ct_cands_world1:
  "ct_cands ''example.com'' (ct_pieces crt_body) = {''www.example.com''}"
  by code_simp

text \<open>
  C8. For an answer of crt.sh with status 200 whose body parses, \<open>search_ct_logs\<close>
  returns the candidates of the records that are not in the set yet and adds them to
  the set. The candidates are the pieces of the \<open>name_value\<close> fields between line
  feeds, stripped and lowercased, that end with the domain and have no \<open>*\<close>. For the
  field \<open>*.example.com\<close>, line feed, \<open>www.example.com\<close> and the domain
  \<open>example.com\<close> that is \<open>www.example.com\<close> alone.
\<close>

theorem ct_extraction:
  "(requests_get w (ct_url (domain h)) (timeout h * 2) = Inr resp \<and>
    status_code resp = 200 \<and> json resp = Inr es \<longrightarrow>
      search_ct_logs w h =
        Inr (h\<lparr>subdomains := subdomains h \<union> ct_cands (domain h) (ct_pieces es)\<rparr>,
             ct_cands (domain h) (ct_pieces es) - subdomains h)) \<and>
   (n \<in> ct_cands d ps \<longleftrightarrow>
      (\<exists>p \<in> set ps. n = lower (strip p)) \<and> endswith n d \<and> CHR ''*'' \<notin> set n) \<and>
   ct_pieces (NameValue v # rest) = split_nl v @ ct_pieces rest \<and>
   split_nl (''*.example.com'' @ [CHR 0x0A] @ ''www.example.com'') =
     [''*.example.com'', ''www.example.com''] \<and>
   ct_cands ''example.com'' [''*.example.com'', ''www.example.com''] = {''www.example.com''}"
proof (intro conjI impI)
  assume "requests_get w (ct_url (domain h)) (timeout h * 2) = Inr resp \<and>
    status_code resp = 200 \<and> json resp = Inr es"
  then show "search_ct_logs w h =
        Inr (h\<lparr>subdomains := subdomains h \<union> ct_cands (domain h) (ct_pieces es)\<rparr>,
             ct_cands (domain h) (ct_pieces es) - subdomains h)"
    by (simp add: search_ct_logs_200)
next
  show "n \<in> ct_cands d ps \<longleftrightarrow>
      (\<exists>p \<in> set ps. n = lower (strip p)) \<and> endswith n d \<and> CHR ''*'' \<notin> set n"
    by (rule ct_cands_iff)
next
  show "ct_pieces (NameValue v # rest) = split_nl v @ ct_pieces rest"
    by simp
next
  show "split_nl (''*.example.com'' @ [CHR 0x0A] @ ''www.example.com'') =
     [''*.example.com'', ''www.example.com'']"
    by simp
next
  show "ct_cands ''example.com'' [''*.example.com'', ''www.example.com''] = {''www.example.com''}"
    by code_simp
qed

theorem ct_extraction_witness:
  "search_ct_logs world1 hunter1 =
     Inr (hunter1\<lparr>subdomains := {''www.example.com''}\<rparr>, {''www.example.com''}) \<and>
   ''*.example.com'' \<notin> {''www.example.com''}"
proof -
  let ?resp = "\<lparr>status_code = 200, resp_text = [], json = Inr crt_body\<rparr>"
  have g: "requests_get world1 (ct_url (domain hunter1)) (timeout hunter1 * 2) = Inr ?resp"
    by (simp add: world1_def hunter1_def init_def ct_url_def)
  have e: "subdomains hunter1 = {}"
    by (simp add: hunter1_def init_def)
  have d: "domain hunter1 = ''example.com''"
    by (simp add: hunter1_def init_def)
  from ct_extraction [of world1 hunter1 ?resp crt_body] g
  have "search_ct_logs world1 hunter1 =
        Inr (hunter1\<lparr>subdomains := subdomains hunter1 \<union> ct_cands (domain hunter1) (ct_pieces crt_body)\<rparr>,
             ct_cands (domain hunter1) (ct_pieces crt_body) - subdomains hunter1)"
    by simp
  then show ?thesis
    by (simp add: e d ct_cands_world1)
qed

text \<open>
  C1 says that the brute force counts the resolving candidates that were not in the set
  before it. In the example scan the certificate search has found \<open>www.example.com\<close>,
  and the wordlist has \<open>www\<close> and \<open>mail\<close>, which both resolve: the brute force
  reports 2 names, though one candidate only is new, and \<open>www.example.com\<close> is counted
  under \<open>ct_logs\<close> and under \<open>brute_force\<close>; \<open>total_unique\<close> is 2.
\<close>

theorem brute_force_counts_known_names:
  "(case run_all world1 hunter1 (Some ''words.txt'') True True True True of
      Inl e \<Rightarrow> False
    | Inr (h', r) \<Rightarrow>
        statistics r ''ct_logs'' = Some 1 \<and> statistics r ''brute_force'' = Some 2 \<and>
        statistics r ''total_unique'' = Some 2) \<and>
   (case dns_bruteforce world1 (hunter1\<lparr>subdomains := {''www.example.com''}\<rparr>) ''words.txt'' of
      Inl e \<Rightarrow> False
    | Inr (h', found) \<Rightarrow>
        found = {''mail.example.com'', ''www.example.com''} \<and>
        card found = 2 \<and> card (found - {''www.example.com''}) = 1)"
  by code_simp

text \<open>
  C6 says that a wordlist that cannot be opened or read ends the brute force only. A
  wordlist that exists and may not be read raises \<open>PermissionError\<close>, which is not
  \<open>FileNotFoundError\<close>: it leaves \<open>dns_bruteforce\<close> and \<open>run_all\<close>, and the scan has
  no result.
\<close>

theorem unreadable_wordlist_aborts:
  "open_lines world1 ''secret.txt'' = Inl PermissionError \<and>
   dns_bruteforce world1 hunter1 ''secret.txt'' = Inl PermissionError \<and>
   (case run_all world1 hunter1 (Some ''secret.txt'') True True True True of
      Inl e \<Rightarrow> e = PermissionError
    | Inr x \<Rightarrow> False)"
  by code_simp

lemma missing_wordlist_skipped:
  "open_lines w path = Inl FileNotFoundError \<Longrightarrow> dns_bruteforce w h path = Inr (h, {})"
  by (simp add: dns_bruteforce_def)

lemma nonpositive_threads_raise:
  "open_lines w path = Inr lines \<Longrightarrow> threads h \<le> 0 \<Longrightarrow> dns_bruteforce w h path = Inl ValueError"
  by (simp add: dns_bruteforce_def)

lemma unreadable_wordlist_raises:
  "open_lines w path = Inl e \<Longrightarrow> e \<noteq> FileNotFoundError \<Longrightarrow> dns_bruteforce w h path = Inl e"
  by (simp add: dns_bruteforce_def)

section \<open>What web_search finds\<close>

text \<open>
  What \<open>findall\<close> returns is the text of the group: label characters and one dot at
  the end. Lowercased and without the dot it has no dot left, so it cannot end with a
  domain that has one.
\<close>

declare findall.simps [simp del] match_groups.simps [simp del]

definition group_text :: "string \<Rightarrow> bool" where
  "group_text g \<longleftrightarrow> (\<exists>l. g = l @ ''.'' \<and> (\<forall>c \<in> set l. is_label_char c))"

lemma match_group_text: "match_group s = Some (g, rest) \<Longrightarrow> group_text g"
proof (cases s)
  case Nil
  assume "match_group s = Some (g, rest)"
  with Nil show ?thesis by simp
next
  case (Cons c cs)
  assume m: "match_group s = Some (g, rest)"
  with Cons have c: "is_alnum c" and g: "g = (c # takeWhile is_label_char cs) @ ''.''"
    by (auto split: if_splits list.splits)
  have "\<forall>x \<in> set (c # takeWhile is_label_char cs). is_label_char x"
    using c by (auto simp: is_label_char_def dest: set_takeWhileD)
  with g show ?thesis
    unfolding group_text_def by blast
qed

lemma match_groups_text:
  "match_groups d g s = Some (g', rest) \<Longrightarrow> group_text g \<Longrightarrow> group_text g'"
proof (induction d g s arbitrary: g' rest rule: match_groups.induct)
  case (1 d g s)
  show ?case
  proof (cases "match_group s")
    case None
    with "1.prems" "1.prems"(1) [unfolded match_groups.simps [of d g s]] show ?thesis
      by (auto simp: match_tail_def split: if_splits)
  next
    case (Some a)
    obtain g1 s1 where a: "a = (g1, s1)" by (cases a)
    note p = "1.prems"(1) [unfolded match_groups.simps [of d g s]]
    have g1: "group_text g1"
      using Some a by (simp add: match_group_text)
    show ?thesis
    proof (cases "match_groups d g1 s1")
      case None
      with p "1.prems"(2) Some a show ?thesis
        by (auto simp: match_tail_def split: if_splits)
    next
      case inner: (Some r)
      with p Some a have "match_groups d g1 s1 = Some (g', rest)"
        by simp
      from "1.IH" [OF Some a [symmetric] this g1] show ?thesis .
    qed
  qed
qed

lemma match_at_text: "match_at d s = Some (g, rest) \<Longrightarrow> group_text g"
  unfolding match_at_def
  by (auto split: option.splits dest: match_group_text match_groups_text)

lemma findall_text: "g \<in> set (findall d s) \<Longrightarrow> group_text g"
proof (induction d s rule: findall.induct)
  case (1 d s)
  show ?case
  proof (cases "match_at d s")
    case None
    show ?thesis
    proof (cases s)
      case Nil
      with None "1.prems" [unfolded findall.simps [of d s]] show ?thesis by simp
    next
      case (Cons c cs)
      with None "1.prems" [unfolded findall.simps [of d s]] have "g \<in> set (findall d cs)"
        by simp
      from "1.IH"(1) [OF None Cons this] show ?thesis .
    qed
  next
    case (Some a)
    obtain g1 rest where a: "a = (g1, rest)" by (cases a)
    from "1.prems" [unfolded findall.simps [of d s]] Some a
    have "g = g1 \<or> g \<in> set (findall d rest)"
      by simp
    then show ?thesis
    proof
      assume "g = g1"
      with Some a show ?thesis by (simp add: match_at_text)
    next
      assume "g \<in> set (findall d rest)"
      from "1.IH"(2) [OF Some a [symmetric] this] show ?thesis .
    qed
  qed
qed

lemma of_char_lower_char:
  "(of_char (lower_char c) :: nat) =
     (if (65 \<le> (of_char c :: nat) \<and> (of_char c :: nat) \<le> 90) \<or>
         (192 \<le> (of_char c :: nat) \<and> (of_char c :: nat) \<le> 222 \<and> (of_char c :: nat) \<noteq> 215)
      then of_char c + 32 else of_char c)"
  by (simp add: lower_char_def Let_def)

lemma lower_char_dot: "lower_char c = CHR ''.'' \<longleftrightarrow> c = CHR ''.''"
proof
  assume "lower_char c = CHR ''.''"
  then have "(of_char (lower_char c) :: nat) = 46"
    by simp
  then have "(of_char c :: nat) = 46"
    unfolding of_char_lower_char by (simp split: if_splits)
  then have "(of_char c :: nat) = of_char CHR ''.''"
    by simp
  then show "c = CHR ''.''"
    by (simp only: of_char_eq_iff)
next
  assume "c = CHR ''.''"
  then show "lower_char c = CHR ''.''"
    by (simp add: lower_char_def)
qed



lemma rstrip_dot_subset: "set (rstrip_dot s) \<subseteq> set s"
  unfolding rstrip_dot_def by (metis set_dropWhileD set_rev subsetI)

lemma group_text_no_dot:
  assumes "group_text g"
  shows "CHR ''.'' \<notin> set (rstrip_dot (lower g))"
proof -
  from assms obtain l where g: "g = l @ ''.''" and l: "\<forall>c \<in> set l. is_label_char c"
    unfolding group_text_def by blast
  have nd: "CHR ''.'' \<notin> set (lower l)"
  proof
    assume "CHR ''.'' \<in> set (lower l)"
    then obtain c where "c \<in> set l" "lower_char c = CHR ''.''"
      by (auto simp: lower_def)
    with l have "is_label_char CHR ''.''"
      by (simp add: lower_char_dot)
    then show False
      by (simp add: is_label_char_def is_alnum_def)
  qed
  have "lower g = lower l @ ''.''"
    by (simp add: g lower_def lower_char_dot)
  then have "rstrip_dot (lower g) = rstrip_dot (lower l)"
    by (simp add: rstrip_dot_def)
  with nd rstrip_dot_subset [of "lower l"] show ?thesis
    by auto
qed

lemma endswith_set: "endswith n d \<Longrightarrow> set d \<subseteq> set n"
  unfolding endswith_def by (metis set_drop_subset)

lemma web_cands_findall:
  assumes "CHR ''.'' \<in> set d" and "\<forall>m \<in> set ms. group_text m"
  shows "web_cands d ms = {}"
proof -
  have "\<not> endswith (rstrip_dot (lower m)) d" if "m \<in> set ms" for m
    using that assms group_text_no_dot [of m] endswith_set [of "rstrip_dot (lower m)" d]
    by auto
  then show ?thesis
    by (auto simp: web_cands_def)
qed

lemma web_found_text: "m \<in> set (web_found w h srcs) \<Longrightarrow> group_text m"
proof (induction srcs)
  case Nil
  then show ?case by simp
next
  case (Cons src srcs)
  obtain name url where src: "src = (name, url)" by (cases src)
  from Cons show ?case
    unfolding src
    by (auto simp del: findall.simps split: sum.splits if_splits dest: findall_text)
qed

lemma web_search_finds_nothing:
  assumes "web_search w h = Inr (h', found)" and "CHR ''.'' \<in> set (domain h)"
  shows "found = {} \<and> h' = h"
proof -
  from assms(1) obtain st where st: "web_sources w h (sources (domain h)) ({}, subdomains h) = Inr st"
    and r: "h' = h\<lparr>subdomains := snd st\<rparr>" "found = fst st"
    by (auto simp: web_search_def split: sum.splits)
  have "web_cands (domain h) (web_found w h (sources (domain h))) = {}"
    using assms(2) web_found_text by (intro web_cands_findall) auto
  with web_sources_eq [OF st] have "st = ({}, subdomains h)"
    by simp
  with r show ?thesis by simp
qed


text \<open>A world whose web sources answer: the bodies name three subdomains.\<close>

definition hackertarget_body :: string where
  "hackertarget_body =
     ''www.example.com,93.184.216.34'' @ [CHR 0x0A] @ ''mail.example.com,93.184.216.35''"

definition world2 :: env where
  "world2 =
     \<lparr>resolver_resolve = (\<lambda>q t. Inl NXDOMAIN),
      requests_get = (\<lambda>u t.
        if u = ''https://api.hackertarget.com/hostsearch/?q=example.com''
        then Inr \<lparr>status_code = 200, resp_text = hackertarget_body, json = Inl JSONDecodeError\<rparr>
        else if u = ''https://dns.bufferover.run/dns?q=.example.com''
        then Inr \<lparr>status_code = 200, resp_text = ''1.2.3.4,api.dev.example.com'',
                  json = Inl JSONDecodeError\<rparr>
        else Inl RequestException),
      from_xfr = (\<lambda>n d t. Inl ConnectionRefusedError),
      open_lines = (\<lambda>p. Inl FileNotFoundError)\<rparr>"

text \<open>
  C2 says that the web search takes the substrings of the body that match the whole
  pattern. \<open>findall\<close> returns the text of the group instead, the last label with its
  dot, which never ends with the domain: from bodies that name
  \<open>www.example.com\<close>, \<open>mail.example.com\<close> and \<open>api.dev.example.com\<close> the web
  search finds nothing.
\<close>

theorem web_search_misses_names:
  "findall ''example.com'' hackertarget_body = [''www.'', ''mail.''] \<and>
   findall ''example.com'' ''1.2.3.4,api.dev.example.com'' = [''dev.''] \<and>
   web_matches ''example.com'' [''www.'', ''mail.''] ({}, {}) = ({}, {}) \<and>
   web_search world2 hunter1 = Inr (hunter1, {})"
  by code_simp

section \<open>main: cleaning and validating the domain\<close>

text \<open>
  Regular expressions without groups, and matching by derivatives: \<open>deriv c r\<close> matches
  what \<open>r\<close> matches after a first character \<open>c\<close>. This decides whether a whole string
  is matched, which is all that \<open>re.match\<close> with a pattern between \<open>^\<close> and \<open>$\<close> is
  asked.
\<close>

datatype rexp = NoMatch | Eps | Chars "char list" | Or rexp rexp | Then rexp rexp | Many rexp

fun nullable :: "rexp \<Rightarrow> bool" where
  "nullable NoMatch = False"
| "nullable Eps = True"
| "nullable (Chars cs) = False"
| "nullable (Or r s) = (nullable r \<or> nullable s)"
| "nullable (Then r s) = (nullable r \<and> nullable s)"
| "nullable (Many r) = True"

fun deriv :: "char \<Rightarrow> rexp \<Rightarrow> rexp" where
  "deriv c NoMatch = NoMatch"
| "deriv c Eps = NoMatch"
| "deriv c (Chars cs) = (if c \<in> set cs then Eps else NoMatch)"
| "deriv c (Or r s) = Or (deriv c r) (deriv c s)"
| "deriv c (Then r s) =
     (if nullable r then Or (Then (deriv c r) s) (deriv c s) else Then (deriv c r) s)"
| "deriv c (Many r) = Then (deriv c r) (Many r)"

fun matches :: "rexp \<Rightarrow> string \<Rightarrow> bool" where
  "matches r [] = nullable r"
| "matches r (c # cs) = matches (deriv c r) cs"

text \<open>\<open>r+\<close> is \<open>r\<close> followed by \<open>r*\<close>.\<close>

definition Plus :: "rexp \<Rightarrow> rexp" where
  "Plus r = Then r (Many r)"

text \<open>The pattern \<open>^[a-z0-9]+([\-\.]{1}[a-z0-9]+)*\.[a-z]{2,}$\<close> of \<open>main\<close>.\<close>

definition lower_alnum :: "char list" where
  "lower_alnum = ''abcdefghijklmnopqrstuvwxyz0123456789''"

definition lower_alpha :: "char list" where
  "lower_alpha = ''abcdefghijklmnopqrstuvwxyz''"

definition domain_re :: rexp where
  "domain_re =
     Then (Plus (Chars lower_alnum))
       (Then (Many (Then (Chars ''-.'') (Plus (Chars lower_alnum))))
          (Then (Chars ''.'')
             (Then (Chars lower_alpha) (Then (Chars lower_alpha) (Many (Chars lower_alpha))))))"

text \<open>\<open>$\<close> matches at the end of the string and before a line feed that ends it.\<close>

definition re_match_domain :: "string \<Rightarrow> bool" where
  "re_match_domain s =
     (matches domain_re s \<or> (s \<noteq> [] \<and> last s = CHR 0x0A \<and> matches domain_re (butlast s)))"

text \<open>
  \<open>urlparse(url).netloc\<close> for the URLs that \<open>main\<close> builds, \<open>http://\<close> followed by the
  argument: tab, carriage return and line feed are removed from the URL (CPython 3.9.5
  and later), and the network location is what follows \<open>http://\<close> up to the first
  \<open>/\<close>, \<open>?\<close> or \<open>#\<close>. One bracket without the other raises \<open>ValueError\<close>;
  \<open>bracketed_ok\<close> stands for the check that later versions of the library make of a
  host in brackets.
\<close>

definition urlparse_netloc :: "(string \<Rightarrow> bool) \<Rightarrow> string \<Rightarrow> py_exn + string" where
  "urlparse_netloc bracketed_ok url =
     (let u = filter (\<lambda>c. c \<notin> set [CHR 0x09, CHR 0x0D, CHR 0x0A]) url;
          netloc = (if startswith u ''http://''
                    then takeWhile (\<lambda>c. c \<notin> set ''/?#'') (drop 7 u) else [])
      in if (CHR ''['' \<in> set netloc) \<noteq> (CHR '']'' \<in> set netloc) then Inl ValueError
         else if CHR ''['' \<in> set netloc \<and> \<not> bracketed_ok netloc then Inl ValueError
         else Inr netloc)"

text \<open>
  The lines of \<open>main\<close> under \<open>Clean domain\<close> and \<open>Validate domain\<close>: the cleaned
  domain, or \<open>SystemExit\<close> from \<open>sys.exit(1)\<close> when the pattern does not match; a
  \<open>ValueError\<close> of \<open>urlparse\<close> is not handled.
\<close>

definition clean_domain :: "(string \<Rightarrow> bool) \<Rightarrow> string \<Rightarrow> py_exn + string" where
  "clean_domain bracketed_ok arg =
     (case urlparse_netloc bracketed_ok (''http://'' @ arg) of
        Inl e \<Rightarrow> Inl e
      | Inr netloc \<Rightarrow> Inr (strip (lower (if netloc \<noteq> [] then netloc else arg))))"

definition validate_domain :: "(string \<Rightarrow> bool) \<Rightarrow> string \<Rightarrow> py_exn + string" where
  "validate_domain bracketed_ok arg =
     (case clean_domain bracketed_ok arg of
        Inl e \<Rightarrow> Inl e
      | Inr d \<Rightarrow> if re_match_domain d then Inr d else Inl SystemExit)"

text \<open>
  C4 says that a scheme and a path are stripped, and that \<open>http://EXAMPLE.com/path\<close>
  becomes \<open>example.com\<close>. \<open>main\<close> puts \<open>http://\<close> before the argument, so the network
  location of \<open>http://http://EXAMPLE.com/path\<close> is \<open>http:\<close>, which the pattern
  rejects. Without the scheme the path is stripped; \<open>not a domain\<close> is rejected and
  \<open>a.b.example.co.uk\<close> is accepted.
\<close>

theorem validate_domain_scheme:
  "clean_domain bracketed_ok ''http://EXAMPLE.com/path'' = Inr ''http:'' \<and>
   validate_domain bracketed_ok ''http://EXAMPLE.com/path'' = Inl SystemExit \<and>
   validate_domain bracketed_ok ''EXAMPLE.com/path'' = Inr ''example.com'' \<and>
   validate_domain bracketed_ok ''not a domain'' = Inl SystemExit \<and>
   validate_domain bracketed_ok ''a.b.example.co.uk'' = Inr ''a.b.example.co.uk''"
  by code_simp

section \<open>What a validated domain looks like\<close>

















section \<open>The names that the phases insert\<close>

lemma of_char_star: "(of_char CHR ''*'' :: nat) = 42"
  by simp

























end
